theory Spec2Isabelle
  imports Main
begin

section \<open>Extraction of Rust code blocks from Markdown\<close>

text \<open>
  A shallow embedding of \<^verbatim>\<open>.github/test-fixtures/extract-rust-blocks.py\<close>.
  Python strings are modelled as \<^typ>\<open>string\<close>, the line counter of
  \<^verbatim>\<open>enumerate(lines, 1)\<close> as a natural number (it starts at 1 and is only
  ever incremented), the generator as the list of the tuples it yields, in order.
\<close>

subsection \<open>Strings: split, join, startswith\<close>

definition nl :: char where
  "nl = CHR 0x0A"

text \<open>\<^verbatim>\<open>content.split('\n')\<close>: always at least one piece.\<close>

primrec split_nl :: "string \<Rightarrow> string list" where
  "split_nl [] = [[]]"
| "split_nl (c # cs) =
     (if c = nl then [] # split_nl cs
      else (case split_nl cs of [] \<Rightarrow> [[c]] | piece # pieces \<Rightarrow> (c # piece) # pieces))"

text \<open>\<^verbatim>\<open>'\n'.join(block_content)\<close>.\<close>

fun join_nl :: "string list \<Rightarrow> string" where
  "join_nl [] = []"
| "join_nl [x] = x"
| "join_nl (x # y # ys) = x @ nl # join_nl (y # ys)"

text \<open>\<^verbatim>\<open>line.startswith(prefix)\<close>.\<close>

definition startswith :: "string \<Rightarrow> string \<Rightarrow> bool" where
  "startswith line p = (take (length p) line = p)"

subsection \<open>The two regular expressions\<close>

text \<open>
  \<^verbatim>\<open>$\<close> without the MULTILINE flag matches at the end of the string and just before
  a newline that ends the string.
\<close>

definition at_end :: "string \<Rightarrow> bool" where
  "at_end t = (t = [] \<or> t = [nl])"

text \<open>The common prefix \<^verbatim>\<open>^```[Rr]ust\<close> of both patterns; the result is the rest of the line.\<close>

definition fence_tag_rest :: "string \<Rightarrow> string option" where
  "fence_tag_rest line =
     (if take 3 line = ''```'' \<and> (take 1 (drop 3 line) = ''R'' \<or> take 1 (drop 3 line) = ''r'')
         \<and> take 3 (drop 4 line) = ''ust''
      then Some (drop 7 line) else None)"

text \<open>
  \<^verbatim>\<open>re.match(r'^```[Rr]ust(,.*)?$', line)\<close> is not None. The dot does not match a
  newline, so the greedy \<^verbatim>\<open>.*\<close> stops at the first newline, and \<^verbatim>\<open>$\<close> has to hold
  there; giving characters back cannot help, nor can skipping the optional group.
\<close>

definition match_open :: "string \<Rightarrow> bool" where
  "match_open line =
     (case fence_tag_rest line of
        None \<Rightarrow> False
      | Some t \<Rightarrow>
          at_end t \<or>
          (case t of
             [] \<Rightarrow> False
           | c # u \<Rightarrow> c = CHR '','' \<and> at_end (dropWhile (\<lambda>x. x \<noteq> nl) u)))"

text \<open>\<^verbatim>\<open>re.match(r'^```[Rr]ust,(.*)$', line)\<close>: group 1 of the match, if there is one.\<close>

definition match_attrs :: "string \<Rightarrow> string option" where
  "match_attrs line =
     (case fence_tag_rest line of
        None \<Rightarrow> None
      | Some t \<Rightarrow>
          (case t of
             [] \<Rightarrow> None
           | c # u \<Rightarrow>
               if c = CHR '','' \<and> at_end (dropWhile (\<lambda>x. x \<noteq> nl) u)
               then Some (takeWhile (\<lambda>x. x \<noteq> nl) u) else None))"

text \<open>\<^verbatim>\<open>match.group(1) if match else ""\<close>.\<close>

definition attrs_of :: "string \<Rightarrow> string" where
  "attrs_of line = (case match_attrs line of Some g \<Rightarrow> g | None \<Rightarrow> [])"

subsection \<open>The scanner\<close>

record scanner =
  in_block :: bool
  block_start :: nat
  block_content :: "string list"
  attributes :: string

type_synonym block = "nat \<times> string \<times> string"

text \<open>The local variables as \<^verbatim>\<open>extract_rust_blocks\<close> initialises them.\<close>

definition init_scanner :: scanner where
  "init_scanner = \<lparr>in_block = False, block_start = 0, block_content = [], attributes = []\<rparr>"

text \<open>The tuple that both \<^verbatim>\<open>yield\<close> statements build from the current variables.\<close>

definition yielded :: "scanner \<Rightarrow> block" where
  "yielded s = (block_start s, attributes s, join_nl (block_content s))"

text \<open>
  One iteration of the \<^verbatim>\<open>for\<close> loop on line number \<open>i\<close>: the blocks yielded in
  this iteration (none or one) and the variables afterwards. The two \<^verbatim>\<open>continue\<close>
  branches come first, in the order of the source; the last two \<^verbatim>\<open>if\<close> statements
  run one after the other.
\<close>

definition step :: "nat \<Rightarrow> string \<Rightarrow> scanner \<Rightarrow> block list \<times> scanner" where
  "step i line s =
     (if match_open line then
        ([], s\<lparr>in_block := True, block_start := i, block_content := [],
               attributes := attrs_of line\<rparr>)
      else if line = ''```'' \<and> in_block s then
        ([yielded s], s\<lparr>in_block := False\<rparr>)
      else
        let s1 = (if in_block s then s\<lparr>block_content := block_content s @ [line]\<rparr> else s);
            s2 = (if startswith line ''```'' \<and> in_block s1 \<and> \<not> line = ''```''
                  then s1\<lparr>in_block := False\<rparr> else s1)
        in ([], s2))"

text \<open>The loop over \<^verbatim>\<open>enumerate(lines, i)\<close>.\<close>

fun run :: "nat \<Rightarrow> string list \<Rightarrow> scanner \<Rightarrow> block list \<times> scanner" where
  "run i [] s = ([], s)"
| "run i (line # rest) s =
     (case step i line s of
        (ys, s') \<Rightarrow> (case run (Suc i) rest s' of (zs, s'') \<Rightarrow> (ys @ zs, s'')))"

text \<open>After the loop: the unclosed block, if any.\<close>

definition at_eof :: "scanner \<Rightarrow> block list" where
  "at_eof s = (if in_block s then [yielded s] else [])"

text \<open>The loop from line number \<open>i\<close> and variables \<open>s\<close>, followed by the end-of-file step.\<close>

definition scan_from :: "nat \<Rightarrow> string list \<Rightarrow> scanner \<Rightarrow> block list" where
  "scan_from i ls s = (case run i ls s of (ys, s') \<Rightarrow> ys @ at_eof s')"

definition extract_rust_blocks :: "string \<Rightarrow> block list" where
  "extract_rust_blocks content = scan_from 1 (split_nl content) init_scanner"

text \<open>The variables when the loop of a whole scan has ended.\<close>

definition final_scanner :: "string \<Rightarrow> scanner" where
  "final_scanner content = snd (run 1 (split_nl content) init_scanner)"

subsection \<open>The command-line entry point\<close>

text \<open>
  What opening and reading the file can raise: \<^verbatim>\<open>FileNotFoundError\<close>, any other
  \<^verbatim>\<open>OSError\<close> (\<^verbatim>\<open>IOError\<close> is its alias) with its message, and
  \<^verbatim>\<open>UnicodeDecodeError\<close>, which is a \<^verbatim>\<open>ValueError\<close> and not an \<^verbatim>\<open>OSError\<close>.
\<close>

datatype exn = FileNotFoundError | OSError string | UnicodeDecodeError string

text \<open>
  The end of the process: \<^verbatim>\<open>sys.exit\<close> or falling off the end of \<^verbatim>\<open>main\<close>, with
  what was written to both streams, or an exception that no clause of \<^verbatim>\<open>main\<close> caught.
\<close>

datatype outcome =
    Exited (status: nat) (stdout: string) (stderr: string)
  | Uncaught exn

definition digit_char :: "nat \<Rightarrow> char" where
  "digit_char d = char_of (48 + d)"

fun str_nat :: "nat \<Rightarrow> string" where
  "str_nat n = (if n < 10 then [digit_char n] else str_nat (n div 10) @ [digit_char (n mod 10)])"

declare str_nat.simps [simp del]

text \<open>\<^verbatim>\<open>f"{line_num}\t{attrs}\t{block_content}\0"\<close>.\<close>

definition output_record :: "block \<Rightarrow> string" where
  "output_record b =
     (case b of (line_num, attrs, content_str) \<Rightarrow>
        str_nat line_num @ [CHR 0x09] @ attrs @ [CHR 0x09] @ content_str @ [CHR 0x00])"

text \<open>
  \<open>argv\<close> is \<^verbatim>\<open>sys.argv\<close>; \<open>read_file\<close> is the file system: what
  \<^verbatim>\<open>open(markdown_file, 'r', encoding='utf-8')\<close> followed by \<^verbatim>\<open>f.read()\<close> gives
  for a path. \<^verbatim>\<open>print\<close> ends its line with a newline.
\<close>

definition main :: "string list \<Rightarrow> (string \<Rightarrow> exn + string) \<Rightarrow> outcome" where
  "main argv read_file =
     (if length argv \<noteq> 2 then
        Exited 1 [] (''Usage: extract-rust-blocks.py <markdown-file>'' @ [nl])
      else
        let markdown_file = argv ! 1 in
        case read_file markdown_file of
          Inl FileNotFoundError \<Rightarrow>
            Exited 1 [] (''Error: File not found: '' @ markdown_file @ [nl])
        | Inl (OSError e) \<Rightarrow>
            Exited 1 [] (''Error reading file: '' @ e @ [nl])
        | Inl (UnicodeDecodeError e) \<Rightarrow> Uncaught (UnicodeDecodeError e)
        | Inr content \<Rightarrow>
            Exited 0 (concat (map output_record (extract_rust_blocks content))) [])"

subsection \<open>Notions used to state the properties\<close>

text \<open>The substring following the first comma of a line; empty when there is no comma.\<close>

definition after_first_comma :: "string \<Rightarrow> string" where
  "after_first_comma line = drop 1 (dropWhile (\<lambda>c. c \<noteq> CHR '','') line)"

text \<open>
  A block that stems from one fence of the document \<open>ls\<close> and from nothing else: line
  \<open>start\<close> (counted from 1) is an opening fence, the attributes are those of that
  line, and the text is the join of the \<open>n\<close> lines that follow it, none of them
  fence-like, up to a closing fence or the end of the document.
\<close>

definition block_of_fence :: "string list \<Rightarrow> block \<Rightarrow> bool" where
  "block_of_fence ls b =
     (case b of (start, attrs, text) \<Rightarrow>
        1 \<le> start \<and> start \<le> length ls \<and> match_open (ls ! (start - 1)) \<and>
        attrs = attrs_of (ls ! (start - 1)) \<and>
        (\<exists>n \<le> length ls - start.
           text = join_nl (take n (drop start ls)) \<and>
           (\<forall>l \<in> set (take n (drop start ls)). \<not> startswith l ''```'') \<and>
           (start + n = length ls \<or> ls ! (start + n) = ''```'')))"

text \<open>The same, for a block whose closing fence is in \<open>ls\<close>.\<close>

definition closed_block :: "string list \<Rightarrow> block \<Rightarrow> bool" where
  "closed_block ls b =
     (case b of (start, attrs, text) \<Rightarrow>
        1 \<le> start \<and> match_open (ls ! (start - 1)) \<and>
        attrs = attrs_of (ls ! (start - 1)) \<and>
        (\<exists>n. start + n < length ls \<and>
           text = join_nl (take n (drop start ls)) \<and>
           (\<forall>l \<in> set (take n (drop start ls)). \<not> startswith l ''```'') \<and>
           ls ! (start + n) = ''```''))"

text \<open>
  What holds of the blocks \<open>ys\<close> yielded so far and of the variables \<open>s\<close> when the
  loop has consumed the lines \<open>ls\<close> of a document from its first line.
\<close>

definition scanned :: "string list \<Rightarrow> block list \<Rightarrow> scanner \<Rightarrow> bool" where
  "scanned ls ys s =
     ((\<forall>b \<in> set ys. closed_block ls b \<and> fst b \<le> length ls) \<and>
      sorted_wrt (<) (map fst ys) \<and>
      (in_block s \<longrightarrow>
         1 \<le> block_start s \<and> block_start s \<le> length ls \<and>
         match_open (ls ! (block_start s - 1)) \<and>
         attributes s = attrs_of (ls ! (block_start s - 1)) \<and>
         block_content s = drop (block_start s) ls \<and>
         (\<forall>l \<in> set (drop (block_start s) ls). \<not> startswith l ''```'') \<and>
         (\<forall>b \<in> set ys. fst b < block_start s)))"

text \<open>
  The opening fence as the specification words it: three backticks, the tag
  \<^verbatim>\<open>rust\<close> in any letter casing, then the end of the line or a comma and an
  attributes string.
\<close>

definition to_lower :: "char \<Rightarrow> char" where
  "to_lower c =
     (case map_of (zip ''ABCDEFGHIJKLMNOPQRSTUVWXYZ'' ''abcdefghijklmnopqrstuvwxyz'') c of
        Some l \<Rightarrow> l
      | None \<Rightarrow> c)"

definition spec_opening_fence :: "string \<Rightarrow> bool" where
  "spec_opening_fence line =
     (take 3 line = ''```'' \<and> map to_lower (take 4 (drop 3 line)) = ''rust'' \<and>
      (drop 7 line = [] \<or> take 1 (drop 7 line) = '',''))"

text \<open>
  A document with well-formed fences only, as a sequence of segments: prose lines, none
  of which is an opening fence, and closed fences, each an opening fence in the sense of
  the specification, body lines that do not start with three backticks, and the closing
  fence.
\<close>

datatype segment = Prose "string list" | Fenced string "string list"

fun segment_lines :: "segment \<Rightarrow> string list" where
  "segment_lines (Prose ls) = ls"
| "segment_lines (Fenced opening body) = opening # body @ [''```'']"

definition document_lines :: "segment list \<Rightarrow> string list" where
  "document_lines segs = concat (map segment_lines segs)"

fun well_formed :: "segment \<Rightarrow> bool" where
  "well_formed (Prose ls) = (\<forall>l \<in> set ls. \<not> spec_opening_fence l \<and> nl \<notin> set l)"
| "well_formed (Fenced opening body) =
     (spec_opening_fence opening \<and> nl \<notin> set opening \<and>
      (\<forall>l \<in> set body. \<not> startswith l ''```'' \<and> nl \<notin> set l))"

text \<open>
  The fences of a segment are written in a casing that the pattern of the code has:
  \<^verbatim>\<open>rust\<close> or \<^verbatim>\<open>Rust\<close>.
\<close>

fun pattern_cased :: "segment \<Rightarrow> bool" where
  "pattern_cased (Prose ls) = True"
| "pattern_cased (Fenced opening body) = match_open opening"

text \<open>The fences of a document, in order: line number of the opening line, that line, the body.\<close>

fun fences :: "nat \<Rightarrow> segment list \<Rightarrow> (nat \<times> string \<times> string list) list" where
  "fences i [] = []"
| "fences i (Prose ls # segs) = fences (i + length ls) segs"
| "fences i (Fenced opening body # segs) =
     (i, opening, body) # fences (i + length body + 2) segs"

text \<open>The block that a fence of the document is expected to give.\<close>

definition block_of_entry :: "nat \<times> string \<times> string list \<Rightarrow> block" where
  "block_of_entry e = (case e of (k, fence, body) \<Rightarrow> (k, attrs_of fence, join_nl body))"

text \<open>The number of fences of a document.\<close>

fun fence_count :: "segment list \<Rightarrow> nat" where
  "fence_count [] = 0"
| "fence_count (Prose ls # segs) = fence_count segs"
| "fence_count (Fenced fence body # segs) = Suc (fence_count segs)"

section \<open>Properties\<close>

subsection \<open>Splitting and joining lines\<close>

lemma split_nl_not_Nil: "split_nl s \<noteq> []"
  by (induction s) (auto split: list.splits)

lemma split_nl_no_nl: "l \<in> set (split_nl s) \<Longrightarrow> nl \<notin> set l"
  by (induction s arbitrary: l) (auto split: list.splits if_splits)

lemma split_nl_line: "nl \<notin> set l \<Longrightarrow> split_nl l = [l]"
  by (induction l) auto

lemma split_nl_line_nl: "nl \<notin> set l \<Longrightarrow> split_nl (l @ nl # r) = l # split_nl r"
  by (induction l) (auto simp: split_nl_not_Nil split: list.splits)

lemma split_join_nl:
  "ls \<noteq> [] \<Longrightarrow> \<forall>l\<in>set ls. nl \<notin> set l \<Longrightarrow> split_nl (join_nl ls) = ls"
  by (induction ls rule: join_nl.induct) (auto simp: split_nl_line split_nl_line_nl)

subsection \<open>Fence lines\<close>

lemma startswith_fence: "startswith l ''```'' = (take 3 l = ''```'')"
  by (simp add: startswith_def numeral_3_eq_3)

lemma match_open_starts: "match_open l \<Longrightarrow> startswith l ''```''"
  by (simp add: match_open_def fence_tag_rest_def startswith_fence split: if_splits)

lemma fence_starts: "startswith ''```'' ''```''"
  by (simp add: startswith_def)

lemma fence_not_open: "\<not> match_open ''```''"
  by (simp add: match_open_def fence_tag_rest_def)

subsection \<open>One iteration, by the kind of line\<close>

lemma step_open:
  "match_open l \<Longrightarrow>
   step i l s = ([], s\<lparr>in_block := True, block_start := i, block_content := [],
                       attributes := attrs_of l\<rparr>)"
  by (simp add: step_def)

lemma step_close:
  "in_block s \<Longrightarrow> step i ''```'' s = ([yielded s], s\<lparr>in_block := False\<rparr>)"
  by (simp add: step_def fence_not_open)

lemma step_outside:
  "\<not> in_block s \<Longrightarrow> \<not> match_open l \<Longrightarrow> step i l s = ([], s)"
  by (simp add: step_def)

lemma step_accumulate:
  "in_block s \<Longrightarrow> \<not> startswith l ''```'' \<Longrightarrow>
   step i l s = ([], s\<lparr>block_content := block_content s @ [l]\<rparr>)"
  using match_open_starts [of l] fence_starts
  by (auto simp: step_def)

lemma step_malformed:
  "in_block s \<Longrightarrow> startswith l ''```'' \<Longrightarrow> l \<noteq> ''```'' \<Longrightarrow> \<not> match_open l \<Longrightarrow>
   step i l s = ([], s\<lparr>block_content := block_content s @ [l], in_block := False\<rparr>)"
  by (simp add: step_def)

subsection \<open>The loop on runs of lines\<close>

lemma run_append:
  "run i (xs @ ys) s =
     (case run i xs s of (a, s') \<Rightarrow>
        (case run (i + length xs) ys s' of (b, s'') \<Rightarrow> (a @ b, s'')))"
  by (induction xs arbitrary: i s) (auto split: prod.splits)

lemma run_outside:
  "\<not> in_block s \<Longrightarrow> \<forall>l\<in>set ls. \<not> match_open l \<Longrightarrow> run i ls s = ([], s)"
  by (induction ls arbitrary: i) (auto simp: step_outside)

lemma run_accumulate:
  "in_block s \<Longrightarrow> \<forall>l\<in>set ls. \<not> startswith l ''```'' \<Longrightarrow>
   run i ls s = ([], s\<lparr>block_content := block_content s @ ls\<rparr>)"
  by (induction ls arbitrary: i s) (auto simp: step_accumulate)

lemma run_fenced:
  "match_open l \<Longrightarrow> \<forall>x\<in>set body. \<not> startswith x ''```'' \<Longrightarrow>
   run i (l # body @ [''```'']) s =
     ([(i, attrs_of l, join_nl body)],
      s\<lparr>in_block := False, block_start := i, block_content := body,
        attributes := attrs_of l\<rparr>)"
  by (simp add: step_open run_append run_accumulate step_close yielded_def)

text \<open>
  Outside a block the other three variables are dead: the next opening fence overwrites
  all of them before anything reads them.
\<close>

lemma scanner_all_assigned:
  "(s::scanner)\<lparr>in_block := a, block_start := b, block_content := c, attributes := d\<rparr>
     = \<lparr>in_block = a, block_start = b, block_content = c, attributes = d\<rparr>"
  by (cases s) simp

lemma scan_from_outside:
  "\<not> in_block s \<Longrightarrow> \<not> in_block t \<Longrightarrow> scan_from i ls s = scan_from i ls t"
proof (induction ls arbitrary: i s t)
  case Nil
  then show ?case by (simp add: scan_from_def at_eof_def)
next
  case (Cons l ls)
  show ?case
  proof (cases "match_open l")
    case True
    then show ?thesis by (simp add: scan_from_def step_open scanner_all_assigned)
  next
    case False
    with Cons.prems have "step i l s = ([], s)" "step i l t = ([], t)"
      by (simp_all add: step_outside)
    with Cons.IH [OF Cons.prems, of "Suc i"] show ?thesis
      by (simp add: scan_from_def)
  qed
qed

lemma scan_from_Cons:
  "scan_from i (l # ls) s = fst (step i l s) @ scan_from (Suc i) ls (snd (step i l s))"
  by (simp add: scan_from_def split: prod.splits)

subsection \<open>The attributes of an opening fence\<close>

lemma fence_tag_rest_Some:
  assumes "fence_tag_rest l = Some t"
  shows "l = ''```rust'' @ t \<or> l = ''```Rust'' @ t"
proof -
  have "take 1 (drop 3 l) @ drop 1 (drop 3 l) = drop 3 l" by (rule append_take_drop_id)
  then have b: "drop 3 l = take 1 (drop 3 l) @ drop 4 l" by simp
  have "take 3 (drop 4 l) @ drop 3 (drop 4 l) = drop 4 l" by (rule append_take_drop_id)
  then have c: "drop 4 l = take 3 (drop 4 l) @ drop 7 l" by simp
  have a: "l = take 3 l @ drop 3 l" by simp
  from assms have e: "take 3 l = ''```''" "take 3 (drop 4 l) = ''ust''" "drop 7 l = t"
    and r: "take 1 (drop 3 l) = ''R'' \<or> take 1 (drop 3 l) = ''r''"
    by (auto simp: fence_tag_rest_def split: if_splits)
  have c': "drop 4 l = ''ust'' @ t" using c by (simp only: e)
  from r show ?thesis
  proof
    assume "take 1 (drop 3 l) = ''R''"
    with b c' have "drop 3 l = ''R'' @ ''ust'' @ t" by (simp only:)
    with a e(1) have "l = ''```'' @ ''R'' @ ''ust'' @ t" by (simp only:)
    then show ?thesis by simp
  next
    assume "take 1 (drop 3 l) = ''r''"
    with b c' have "drop 3 l = ''r'' @ ''ust'' @ t" by (simp only:)
    with a e(1) have "l = ''```'' @ ''r'' @ ''ust'' @ t" by (simp only:)
    then show ?thesis by simp
  qed
qed

lemma no_nl_at_end: "nl \<notin> set u \<Longrightarrow> at_end (dropWhile (\<lambda>x. x \<noteq> nl) u)"
  by (induction u) (auto simp: at_end_def)

lemma no_nl_takeWhile: "nl \<notin> set u \<Longrightarrow> takeWhile (\<lambda>x. x \<noteq> nl) u = u"
  by (induction u) auto

lemma attrs_of_after_first_comma:
  assumes "match_open l" and "nl \<notin> set l"
  shows "attrs_of l = after_first_comma l"
proof -
  from assms(1) obtain t where t: "fence_tag_rest l = Some t"
    by (auto simp: match_open_def split: option.splits)
  from fence_tag_rest_Some [OF t] have l: "l = ''```rust'' @ t \<or> l = ''```Rust'' @ t" .
  with assms(2) have nt: "nl \<notin> set t" by auto
  show ?thesis
  proof (cases t)
    case Nil
    with l t show ?thesis
      by (auto simp: attrs_of_def match_attrs_def after_first_comma_def)
  next
    case (Cons c u)
    with assms(1) t nt have c: "c = CHR '',''"
      by (auto simp: match_open_def at_end_def)
    from nt Cons have "nl \<notin> set u" by simp
    then have "attrs_of l = u"
      using t Cons c by (simp add: attrs_of_def match_attrs_def no_nl_at_end no_nl_takeWhile)
    moreover from l Cons c have "after_first_comma l = u"
      by (auto simp: after_first_comma_def)
    ultimately show ?thesis by simp
  qed
qed

subsection \<open>At most one block per line\<close>

lemma step_length:
  "length (fst (step i l s)) + of_bool (in_block (snd (step i l s))) \<le> Suc (of_bool (in_block s))"
proof (cases "match_open l")
  case True
  then show ?thesis by (simp add: step_open)
next
  case no_open: False
  show ?thesis
  proof (cases "in_block s")
    case False
    with no_open show ?thesis by (simp add: step_outside)
  next
    case inside: True
    show ?thesis
    proof (cases "l = ''```''")
      case True
      with inside show ?thesis by (simp add: step_close)
    next
      case False
      with inside no_open show ?thesis
        by (cases "startswith l ''```''") (simp_all add: step_malformed step_accumulate)
    qed
  qed
qed

lemma scan_from_length:
  "length (scan_from i ls s) \<le> length ls + of_bool (in_block s)"
proof (induction ls arbitrary: i s)
  case Nil
  show ?case by (simp add: scan_from_def at_eof_def)
next
  case (Cons l ls)
  have "length (scan_from i (l # ls) s)
      = length (fst (step i l s)) + length (scan_from (Suc i) ls (snd (step i l s)))"
    by (simp only: scan_from_Cons length_append)
  also have "\<dots> \<le> length (fst (step i l s)) + (length ls + of_bool (in_block (snd (step i l s))))"
    using Cons [of "Suc i" "snd (step i l s)"] by (simp only: add_left_mono)
  also have "\<dots> \<le> length ls + Suc (of_bool (in_block s))"
    using step_length [of i l s] by linarith
  finally show ?case by simp
qed

subsection \<open>The loop invariant\<close>

lemma closed_block_append: "closed_block xs b \<Longrightarrow> closed_block (xs @ ys) b"
  by (cases b) (auto simp: closed_block_def nth_append)

lemma run_snoc:
  "run i (xs @ [x]) s =
     (case run i xs s of (a, s') \<Rightarrow>
        (case step (i + length xs) x s' of (b, s'') \<Rightarrow> (a @ b, s'')))"
  by (simp add: run_append split: prod.splits)

lemma scanned_init: "scanned [] [] init_scanner"
  by (simp add: scanned_def init_scanner_def)

lemma scanned_step:
  assumes "scanned xs ys s" and "step (Suc (length xs)) x s = (e, s')"
  shows "scanned (xs @ [x]) (ys @ e) s'"
proof -
  let ?L = "xs @ [x]"
  from assms(1) have old: "\<forall>b\<in>set ys. closed_block ?L b \<and> fst b \<le> length xs"
    and srt: "sorted_wrt (<) (map fst ys)"
    by (auto simp: scanned_def closed_block_append)
  show ?thesis
  proof (cases "match_open x")
    case True
    with assms(2) have "e = []"
      and "s' = s\<lparr>in_block := True, block_start := Suc (length xs), block_content := [],
                       attributes := attrs_of x\<rparr>"
      by (simp_all add: step_open)
    with old srt True show ?thesis
      by (auto simp: scanned_def less_Suc_eq_le)
  next
    case no_open: False
    show ?thesis
    proof (cases "in_block s")
      case False
      with no_open assms(2) have "e = []" "s' = s" by (simp_all add: step_outside)
      with old srt False show ?thesis by (auto simp: scanned_def)
    next
      case inside: True
      with assms(1) have bs: "1 \<le> block_start s" "block_start s \<le> length xs"
        and op: "match_open (xs ! (block_start s - 1))"
        and at: "attributes s = attrs_of (xs ! (block_start s - 1))"
        and bc: "block_content s = drop (block_start s) xs"
        and nf: "\<forall>l \<in> set (drop (block_start s) xs). \<not> startswith l ''```''"
        and lt: "\<forall>b \<in> set ys. fst b < block_start s"
        by (auto simp: scanned_def)
      from bs have pos: "block_start s - 1 < length xs" by arith
      show ?thesis
      proof (cases "x = ''```''")
        case True
        with inside assms(2) have e: "e = [yielded s]" and s': "s' = s\<lparr>in_block := False\<rparr>"
          by (simp_all add: step_close)
        have "closed_block ?L (yielded s)"
        proof -
          let ?b = "block_start s"
          let ?n = "length xs - ?b"
          have 1: "?b + ?n < length ?L" using bs by simp
          have 2: "join_nl (block_content s) = join_nl (take ?n (drop ?b ?L))"
            using bs bc by simp
          have 3: "\<forall>l\<in>set (take ?n (drop ?b ?L)). \<not> startswith l ''```''"
            using nf bs by simp
          have 4: "?L ! (?b + ?n) = ''```''" using bs True by (simp add: nth_append)
          have 5: "match_open (?L ! (?b - 1))" using pos op by (simp add: nth_append)
          have 6: "attributes s = attrs_of (?L ! (?b - 1))" using pos at by (simp add: nth_append)
          from 1 2 3 4 have "\<exists>n. ?b + n < length ?L \<and>
              join_nl (block_content s) = join_nl (take n (drop ?b ?L)) \<and>
              (\<forall>l\<in>set (take n (drop ?b ?L)). \<not> startswith l ''```'') \<and>
              ?L ! (?b + n) = ''```''"
            by blast
          with 5 6 bs(1) show ?thesis
            unfolding closed_block_def yielded_def by simp
        qed
        with old srt lt bs e s' show ?thesis
          by (auto simp: scanned_def sorted_wrt_append yielded_def)
      next
        case no_close: False
        show ?thesis
        proof (cases "startswith x ''```''")
          case True
          with inside no_close no_open assms(2) have "e = []" "\<not> in_block s'"
            by (auto simp: step_malformed)
          with old srt show ?thesis by (auto simp: scanned_def)
        next
          case False
          with inside assms(2) have "e = []"
            and "s' = s\<lparr>block_content := block_content s @ [x]\<rparr>"
            by (simp_all add: step_accumulate)
          with old srt inside bs pos op at bc nf lt False show ?thesis
            by (auto simp: scanned_def nth_append)
        qed
      qed
    qed
  qed
qed

lemma scanned_run: "run 1 ls init_scanner = (ys, s) \<Longrightarrow> scanned ls ys s"
proof (induction ls arbitrary: ys s rule: rev_induct)
  case Nil
  then show ?case by (auto simp: scanned_init)
next
  case (snoc x xs)
  obtain a t where r: "run 1 xs init_scanner = (a, t)" by (cases "run 1 xs init_scanner")
  obtain e t' where st: "step (Suc (length xs)) x t = (e, t')" by (cases "step (Suc (length xs)) x t")
  from snoc.prems r st have "ys = a @ e" "s = t'" by (simp_all add: run_snoc)
  with scanned_step [OF snoc.IH [OF r] st] show ?case by simp
qed

lemma scanned_whole:
  "scanned (split_nl d) (fst (run 1 (split_nl d) init_scanner)) (final_scanner d)"
  by (rule scanned_run) (simp add: final_scanner_def)

lemma extract_as_run:
  "extract_rust_blocks d = fst (run 1 (split_nl d) init_scanner) @ at_eof (final_scanner d)"
  by (simp add: extract_rust_blocks_def scan_from_def final_scanner_def split: prod.splits)

lemma closed_block_of_fence:
  assumes "closed_block ls b" and "fst b \<le> length ls"
  shows "block_of_fence ls b"
proof -
  obtain start attrs c where b: "b = (start, attrs, c)" by (cases b)
  from assms(1) b obtain n where n: "start + n < length ls"
    "c = join_nl (take n (drop start ls))"
    "\<forall>l \<in> set (take n (drop start ls)). \<not> startswith l ''```''"
    "ls ! (start + n) = ''```''"
    and rest: "1 \<le> start" "match_open (ls ! (start - 1))" "attrs = attrs_of (ls ! (start - 1))"
    by (auto simp: closed_block_def)
  from n(1) have "n \<le> length ls - start" by simp
  with n have "\<exists>n \<le> length ls - start.
           c = join_nl (take n (drop start ls)) \<and>
           (\<forall>l \<in> set (take n (drop start ls)). \<not> startswith l ''```'') \<and>
           (start + n = length ls \<or> ls ! (start + n) = ''```'')"
    by blast
  with rest assms(2) b show ?thesis by (simp add: block_of_fence_def)
qed

lemma eof_block_of_fence:
  assumes "scanned ls ys s" and "in_block s"
  shows "block_of_fence ls (yielded s)"
proof -
  let ?b = "block_start s"
  from assms have f: "1 \<le> ?b" "?b \<le> length ls" "match_open (ls ! (?b - 1))"
    "attributes s = attrs_of (ls ! (?b - 1))" "block_content s = drop ?b ls"
    "\<forall>l \<in> set (drop ?b ls). \<not> startswith l ''```''"
    by (auto simp: scanned_def)
  let ?n = "length ls - ?b"
  have "?n \<le> length ls - ?b \<and> join_nl (block_content s) = join_nl (take ?n (drop ?b ls)) \<and>
        (\<forall>l \<in> set (take ?n (drop ?b ls)). \<not> startswith l ''```'') \<and>
        (?b + ?n = length ls \<or> ls ! (?b + ?n) = ''```'')"
    using f by simp
  then have "\<exists>n \<le> length ls - ?b. join_nl (block_content s) = join_nl (take n (drop ?b ls)) \<and>
        (\<forall>l \<in> set (take n (drop ?b ls)). \<not> startswith l ''```'') \<and>
        (?b + n = length ls \<or> ls ! (?b + n) = ''```'')"
    by blast
  with f show ?thesis by (simp add: block_of_fence_def yielded_def)
qed

lemma extract_blocks_of_fences:
  "b \<in> set (extract_rust_blocks d) \<Longrightarrow> block_of_fence (split_nl d) b"
  using scanned_whole [of d] eof_block_of_fence [OF scanned_whole, of d]
  by (auto simp: extract_as_run at_eof_def scanned_def closed_block_of_fence split: if_splits)

lemma extract_sorted: "sorted_wrt (<) (map fst (extract_rust_blocks d))"
  using scanned_whole [of d]
  by (auto simp: extract_as_run at_eof_def scanned_def sorted_wrt_append yielded_def)

subsection \<open>Documents with well-formed fences\<close>

lemma document_lines_Cons:
  "document_lines (seg # segs) = segment_lines seg @ document_lines segs"
  by (simp add: document_lines_def)

lemma document_lines_Nil: "document_lines [] = []"
  by (simp add: document_lines_def)

lemma match_open_spec:
  assumes "match_open l" and "nl \<notin> set l"
  shows "spec_opening_fence l"
proof -
  from assms(1) obtain t where t: "fence_tag_rest l = Some t"
    by (auto simp: match_open_def split: option.splits)
  from fence_tag_rest_Some [OF t] have l: "l = ''```rust'' @ t \<or> l = ''```Rust'' @ t" .
  with assms(2) have nt: "nl \<notin> set t" by auto
  from assms(1) t nt have "t = [] \<or> take 1 t = '',''"
    by (cases t) (auto simp: match_open_def at_end_def)
  with l show ?thesis
    by (auto simp: spec_opening_fence_def to_lower_def)
qed

lemma prose_not_open:
  "well_formed (Prose ls) \<Longrightarrow> \<forall>l\<in>set ls. \<not> match_open l"
  using match_open_spec by auto

lemma run_segments:
  "\<forall>seg\<in>set segs. well_formed seg \<and> pattern_cased seg \<Longrightarrow> \<not> in_block s \<Longrightarrow>
   fst (run i (document_lines segs) s) = map block_of_entry (fences i segs)
   \<and> \<not> in_block (snd (run i (document_lines segs) s))"
proof (induction segs arbitrary: i s)
  case Nil
  then show ?case by (simp add: document_lines_Nil)
next
  case (Cons seg segs)
  show ?case
  proof (cases seg)
    case (Prose ls)
    with Cons.prems have "well_formed (Prose ls)" by simp
    then have "\<forall>l\<in>set ls. \<not> match_open l" by (rule prose_not_open)
    with Cons.prems(2) have "run i ls s = ([], s)" by (rule run_outside)
    with Cons.IH [of s "i + length ls"] Cons.prems Prose show ?thesis
      by (simp add: document_lines_Cons run_append split: prod.splits)
  next
    case (Fenced fence body)
    let ?s = "s\<lparr>in_block := False, block_start := i, block_content := body,
                attributes := attrs_of fence\<rparr>"
    let ?pre = "fence # body @ [''```'']"
    from Cons.prems Fenced have fr: "run i ?pre s = ([(i, attrs_of fence, join_nl body)], ?s)"
      by (simp add: run_fenced del: run.simps)
    have len: "i + length ?pre = i + length body + 2" by simp
    have whole: "run i (?pre @ document_lines segs) s =
        (case run (i + length body + 2) (document_lines segs) ?s of
           (b, s'') \<Rightarrow> ([(i, attrs_of fence, join_nl body)] @ b, s''))"
      by (simp only: run_append fr prod.case len)
    from Cons.IH [of ?s "i + length body + 2"] Cons.prems
    have ih: "fst (run (i + length body + 2) (document_lines segs) ?s)
          = map block_of_entry (fences (i + length body + 2) segs)"
      "\<not> in_block (snd (run (i + length body + 2) (document_lines segs) ?s))"
      by simp_all
    have d: "document_lines (seg # segs) = ?pre @ document_lines segs"
      using Fenced by (simp add: document_lines_Cons)
    have f: "fences i (seg # segs) = (i, fence, body) # fences (i + length body + 2) segs"
      using Fenced by simp
    show ?thesis
      unfolding d f whole using ih
      by (cases "run (i + length body + 2) (document_lines segs) ?s")
         (simp add: block_of_entry_def)
  qed
qed

lemma fences_empty_document: "document_lines segs = [] \<Longrightarrow> fences i segs = []"
proof (induction segs arbitrary: i)
  case Nil
  show ?case by simp
next
  case (Cons seg segs)
  then show ?case by (cases seg) (simp_all add: document_lines_Cons)
qed

lemma length_fences: "length (fences i segs) = fence_count segs"
  by (induction i segs rule: fences.induct) simp_all

lemma fence_no_nl: "nl \<notin> set ''```''"
  by (simp add: nl_def)

lemma document_lines_no_nl:
  "\<forall>seg\<in>set segs. well_formed seg \<Longrightarrow> l \<in> set (document_lines segs) \<Longrightarrow> nl \<notin> set l"
proof (induction segs)
  case Nil
  then show ?case by (simp add: document_lines_Nil)
next
  case (Cons seg segs)
  then show ?case
    using fence_no_nl by (cases seg) (auto simp: document_lines_Cons)
qed

lemma extract_segments:
  assumes "\<forall>seg\<in>set segs. well_formed seg \<and> pattern_cased seg"
  shows "extract_rust_blocks (join_nl (document_lines segs)) = map block_of_entry (fences 1 segs)"
proof (cases "document_lines segs = []")
  case True
  then show ?thesis
    by (simp add: fences_empty_document extract_rust_blocks_def scan_from_def step_def
        init_scanner_def at_eof_def match_open_def fence_tag_rest_def startswith_def)
next
  case False
  from assms have "\<forall>seg\<in>set segs. well_formed seg" by simp
  with False have sp: "split_nl (join_nl (document_lines segs)) = document_lines segs"
    by (simp add: split_join_nl document_lines_no_nl)
  obtain ys s where r: "run 1 (document_lines segs) init_scanner = (ys, s)"
    by (cases "run 1 (document_lines segs) init_scanner")
  with run_segments [OF assms, of init_scanner 1]
  have "ys = map block_of_entry (fences 1 segs)" "\<not> in_block s"
    by (simp_all add: init_scanner_def)
  with r show ?thesis
    by (simp add: extract_rust_blocks_def scan_from_def sp at_eof_def)
qed

lemma fences_in_document:
  "(k, fence, body) \<in> set (fences i segs) \<Longrightarrow>
   \<exists>j. k = i + j \<and> document_lines segs ! j = fence
     \<and> take (length body) (drop (Suc j) (document_lines segs)) = body
     \<and> document_lines segs ! (Suc j + length body) = ''```''"
proof (induction i segs rule: fences.induct)
  case (1 i)
  then show ?case by simp
next
  case (2 i ls segs)
  then obtain j where j: "k = i + length ls + j" "document_lines segs ! j = fence"
    "take (length body) (drop (Suc j) (document_lines segs)) = body"
    "document_lines segs ! (Suc j + length body) = ''```''"
    by auto
  let ?j = "length ls + j"
  have "k = i + ?j" using j(1) by simp
  moreover have "document_lines (Prose ls # segs) ! ?j = fence"
    using j(2) by (simp add: document_lines_Cons)
  moreover have "take (length body) (drop (Suc ?j) (document_lines (Prose ls # segs))) = body"
    using j(3) by (simp add: document_lines_Cons)
  moreover have "document_lines (Prose ls # segs) ! (Suc ?j + length body) = ''```''"
    using j(4) nth_append_length_plus [of ls "document_lines segs" "Suc j + length body"]
    by (simp add: document_lines_Cons add.assoc)
  ultimately show ?case by blast
next
  case (3 i fence' body' segs)
  let ?pre = "fence' # body' @ [''```'']"
  have d: "document_lines (Fenced fence' body' # segs) = ?pre @ document_lines segs"
    by (simp add: document_lines_Cons)
  show ?case
  proof (cases "(k, fence, body) = (i, fence', body')")
    case True
    then have "k = i + 0 \<and> document_lines (Fenced fence' body' # segs) ! 0 = fence
        \<and> take (length body) (drop (Suc 0) (document_lines (Fenced fence' body' # segs))) = body
        \<and> document_lines (Fenced fence' body' # segs) ! (Suc 0 + length body) = ''```''"
      by (simp add: document_lines_Cons nth_append)
    then show ?thesis by blast
  next
    case False
    with 3 obtain j where j: "k = i + length body' + 2 + j" "document_lines segs ! j = fence"
      "take (length body) (drop (Suc j) (document_lines segs)) = body"
      "document_lines segs ! (Suc j + length body) = ''```''"
      by auto
    have len: "length ?pre = length body' + 2" by simp
    let ?j = "length ?pre + j"
    have "k = i + ?j" using j(1) by simp
    moreover have "(?pre @ document_lines segs) ! ?j = fence"
      using j(2) by (simp only: nth_append_length_plus)
    moreover have "take (length body) (drop (Suc ?j) (?pre @ document_lines segs)) = body"
      using j(3) by simp
    moreover have "(?pre @ document_lines segs) ! (Suc ?j + length body) = ''```''"
      using j(4) nth_append_length_plus [of ?pre "document_lines segs" "Suc j + length body"]
      by (simp only: add_Suc_right add_Suc add.assoc)
    ultimately show ?thesis unfolding d by blast
  qed
qed

text \<open>
  A document made of prose lines and of well-formed, closed fences whose tags are in a
  casing of the pattern yields one block for each fence, in the order of the fences:
  there are as many blocks as fences, the start line of each block is the line number,
  counted from 1, of its opening fence, and its content is the lines strictly between
  the opening and the closing fence, joined with newlines.
\<close>

lemma pattern_cased_fences_yield_blocks:
  assumes "\<forall>seg\<in>set segs. well_formed seg \<and> pattern_cased seg"
  shows "extract_rust_blocks (join_nl (document_lines segs))
           = map block_of_entry (fences 1 segs)
       \<and> length (extract_rust_blocks (join_nl (document_lines segs))) = fence_count segs
       \<and> (\<forall>e \<in> set (fences 1 segs).
            case e of (k, fence, body) \<Rightarrow>
              1 \<le> k \<and> document_lines segs ! (k - 1) = fence \<and>
              take (length body) (drop k (document_lines segs)) = body \<and>
              document_lines segs ! (k + length body) = ''```'')"
proof -
  have lines: "\<forall>e \<in> set (fences 1 segs).
            case e of (k, fence, body) \<Rightarrow>
              1 \<le> k \<and> document_lines segs ! (k - 1) = fence \<and>
              take (length body) (drop k (document_lines segs)) = body \<and>
              document_lines segs ! (k + length body) = ''```''"
  proof
    fix e assume e: "e \<in> set (fences 1 segs)"
    obtain k fence body where t: "e = (k, fence, body)" by (cases e)
    from fences_in_document [of k fence body 1 segs] e t
    obtain j where "k = Suc j" "document_lines segs ! j = fence"
      "take (length body) (drop (Suc j) (document_lines segs)) = body"
      "document_lines segs ! (Suc j + length body) = ''```''"
      by auto
    with t show "case e of (k, fence, body) \<Rightarrow>
              1 \<le> k \<and> document_lines segs ! (k - 1) = fence \<and>
              take (length body) (drop k (document_lines segs)) = body \<and>
              document_lines segs ! (k + length body) = ''```''"
      by simp
  qed
  from extract_segments [OF assms] lines show ?thesis
    by (simp add: length_fences)
qed

lemma pattern_cased_fences_example:
  "extract_rust_blocks
     (join_nl [''intro'', ''```rust'', ''fn main() {}'', ''```'', ''outro'',
               ''```Rust,no_run'', ''let x = 1;'', ''x'', ''```''])
   = [(2, [], ''fn main() {}''), (6, ''no_run'', join_nl [''let x = 1;'', ''x''])]"
  using pattern_cased_fences_yield_blocks
    [of "[Prose [''intro''], Fenced ''```rust'' [''fn main() {}''], Prose [''outro''],
          Fenced ''```Rust,no_run'' [''let x = 1;'', ''x'']]"]
  by (simp add: document_lines_def block_of_entry_def attrs_of_def match_attrs_def
      match_open_def fence_tag_rest_def at_end_def nl_def startswith_fence
      spec_opening_fence_def to_lower_def)

lemma spec_opening_fence_examples:
  "spec_opening_fence ''```rust'' \<and> spec_opening_fence ''```RUST''
   \<and> spec_opening_fence ''```rUst,ignore''
   \<and> \<not> spec_opening_fence ''```rustacean'' \<and> \<not> spec_opening_fence ''```javascript''
   \<and> \<not> spec_opening_fence ''```''"
  by (simp add: spec_opening_fence_def to_lower_def)

section \<open>The claims\<close>

text \<open>
  C1, as the code has it. While the scanner is inside a block, a line that starts with
  three backticks, is not exactly the closing fence and does not itself match the Rust
  opening-fence pattern (a fence of another language, for instance) is appended to the
  accumulated content, and the scanner goes outside without yielding anything; the rest
  of the document is then scanned exactly as from a fresh scanner outside any block, so
  the accumulated content is dropped and no partial block appears.
\<close>

theorem malformed_fence_drops_block:
  assumes "in_block s" and "startswith l ''```''" and "l \<noteq> ''```''" and "\<not> match_open l"
  shows "step i l s = ([], s\<lparr>block_content := block_content s @ [l], in_block := False\<rparr>)
       \<and> scan_from i (l # rest) s = scan_from (Suc i) rest init_scanner"
proof -
  have st: "step i l s = ([], s\<lparr>block_content := block_content s @ [l], in_block := False\<rparr>)"
    using assms by (rule step_malformed)
  have "scan_from i (l # rest) s
      = scan_from (Suc i) rest (s\<lparr>block_content := block_content s @ [l], in_block := False\<rparr>)"
    by (simp add: scan_from_Cons st)
  also have "\<dots> = scan_from (Suc i) rest init_scanner"
    by (rule scan_from_outside) (simp_all add: init_scanner_def)
  finally show ?thesis using st by simp
qed

theorem malformed_fence_drops_block_witness:
  "scan_from 3 [''```python'', ''b'', ''```'']
     \<lparr>in_block = True, block_start = 1, block_content = [''a''], attributes = []\<rparr>
   = scan_from 4 [''b'', ''```''] init_scanner"
  using malformed_fence_drops_block
    [of "\<lparr>in_block = True, block_start = 1, block_content = [''a''], attributes = []\<rparr>"
        "''```python''" 3 "[''b'', ''```'']"]
  by (simp add: startswith_fence match_open_def fence_tag_rest_def)

text \<open>
  C1 as stated fails for a nested \<^verbatim>\<open>```rust\<close> line: the opening-fence test comes first
  in the loop body, so the line is not appended and the scanner does not go outside; it
  opens a new block, which the closing fence then yields.
\<close>

theorem nested_rust_fence_counterexample:
  "step 3 ''```rust''
     \<lparr>in_block = True, block_start = 1, block_content = [''a''], attributes = []\<rparr>
   \<noteq> ([], \<lparr>in_block = False, block_start = 1, block_content = [''a'', ''```rust''],
           attributes = []\<rparr>)
   \<and> extract_rust_blocks (join_nl [''```rust'', ''a'', ''```rust'', ''b'', ''```''])
       = [(3, [], ''b'')]"
  by (simp add: extract_rust_blocks_def scan_from_def init_scanner_def step_def
      match_open_def fence_tag_rest_def at_end_def nl_def yielded_def at_eof_def
      startswith_def attrs_of_def match_attrs_def)

text \<open>
  C2 at the inputs where the code departs from it: a tag in a casing other than
  \<^verbatim>\<open>rust\<close> and \<^verbatim>\<open>Rust\<close> does not open a block, although the comment above the
  pattern calls the match case-insensitive. The two casings of the pattern do open a
  block, and a longer word or another language does not.
\<close>

theorem uppercase_tag_not_opened:
  "\<not> match_open ''```RUST'' \<and> \<not> match_open ''```rUst''
   \<and> extract_rust_blocks (join_nl [''```RUST'', ''fn main() {}'', ''```'']) = []
   \<and> match_open ''```rust'' \<and> match_open ''```Rust'' \<and> match_open ''```Rust,ignore''
   \<and> \<not> match_open ''```rustacean'' \<and> \<not> match_open ''```javascript''"
  by (simp add: extract_rust_blocks_def scan_from_def init_scanner_def step_def
      match_open_def fence_tag_rest_def at_end_def nl_def yielded_def at_eof_def
      startswith_def attrs_of_def match_attrs_def)

text \<open>
  C3 at the input where the code departs from it. A document that consists of one
  well-formed, closed fence whose tag is written \<^verbatim>\<open>RUST\<close> has one fence, and the
  scan yields no block for it: the pattern of the code knows the tag in two casings
  only. For fences in those two casings the property holds, as
  \<open>pattern_cased_fences_yield_blocks\<close> shows.
\<close>

theorem uppercase_fence_yields_no_block:
  "well_formed (Fenced ''```RUST'' [''fn main() {}''])
   \<and> \<not> pattern_cased (Fenced ''```RUST'' [''fn main() {}''])
   \<and> fence_count [Fenced ''```RUST'' [''fn main() {}'']] = 1
   \<and> document_lines [Fenced ''```RUST'' [''fn main() {}'']]
       = [''```RUST'', ''fn main() {}'', ''```'']
   \<and> extract_rust_blocks (join_nl (document_lines [Fenced ''```RUST'' [''fn main() {}'']]))
       = []"
  by (simp add: spec_opening_fence_def to_lower_def document_lines_def
      extract_rust_blocks_def scan_from_def init_scanner_def step_def
      match_open_def fence_tag_rest_def at_end_def nl_def yielded_def at_eof_def
      startswith_def attrs_of_def match_attrs_def)

text \<open>
  C4. When the loop ends inside a block, the scan yields one more block after those of
  the loop: its start line is the line number of the opening fence that the scanner
  holds, its attributes are those of that line, and its content is every line after
  that fence up to the end of the document, joined with newlines.
\<close>

theorem unclosed_block_yielded_at_eof:
  assumes "in_block (final_scanner d)"
  shows "extract_rust_blocks d =
           fst (run 1 (split_nl d) init_scanner) @
           [(block_start (final_scanner d),
             attrs_of (split_nl d ! (block_start (final_scanner d) - 1)),
             join_nl (drop (block_start (final_scanner d)) (split_nl d)))]
       \<and> 1 \<le> block_start (final_scanner d)
       \<and> block_start (final_scanner d) \<le> length (split_nl d)
       \<and> match_open (split_nl d ! (block_start (final_scanner d) - 1))"
  using assms scanned_whole [of d]
  by (simp add: extract_as_run at_eof_def scanned_def yielded_def)

theorem unclosed_block_yielded_at_eof_witness:
  "in_block (final_scanner (join_nl [''intro'', ''```rust,ignore'', ''foo()'', ''bar()'']))
   \<and> extract_rust_blocks (join_nl [''intro'', ''```rust,ignore'', ''foo()'', ''bar()''])
       = [(2, ''ignore'', join_nl [''foo()'', ''bar()''])]"
  using unclosed_block_yielded_at_eof
    [of "join_nl [''intro'', ''```rust,ignore'', ''foo()'', ''bar()'']"]
  by (simp add: extract_rust_blocks_def scan_from_def final_scanner_def init_scanner_def
      step_def match_open_def fence_tag_rest_def at_end_def nl_def yielded_def at_eof_def
      startswith_def attrs_of_def match_attrs_def)

text \<open>
  C5. Every block that a scan yields starts at an opening fence of the document, and its
  attributes are the substring that follows the first comma of that line, empty when
  the line has no comma.
\<close>

theorem attributes_follow_first_comma:
  "\<forall>b \<in> set (extract_rust_blocks d).
     (case b of (start, attrs, text) \<Rightarrow>
        1 \<le> start \<and> start \<le> length (split_nl d) \<and>
        match_open (split_nl d ! (start - 1)) \<and>
        attrs = after_first_comma (split_nl d ! (start - 1)))"
proof
  fix b assume b: "b \<in> set (extract_rust_blocks d)"
  obtain start attrs c where t: "b = (start, attrs, c)" by (cases b)
  from extract_blocks_of_fences [OF b] t
  have f: "1 \<le> start" "start \<le> length (split_nl d)" "match_open (split_nl d ! (start - 1))"
    "attrs = attrs_of (split_nl d ! (start - 1))"
    by (simp_all add: block_of_fence_def)
  from f(1,2) have "split_nl d ! (start - 1) \<in> set (split_nl d)" by simp
  then have "nl \<notin> set (split_nl d ! (start - 1))" by (rule split_nl_no_nl)
  with f(3) have "attrs_of (split_nl d ! (start - 1)) = after_first_comma (split_nl d ! (start - 1))"
    by (rule attrs_of_after_first_comma)
  with f t show "case b of (start, attrs, text) \<Rightarrow>
        1 \<le> start \<and> start \<le> length (split_nl d) \<and>
        match_open (split_nl d ! (start - 1)) \<and>
        attrs = after_first_comma (split_nl d ! (start - 1))"
    by simp
qed

theorem attributes_follow_first_comma_witness:
  "extract_rust_blocks (join_nl [''```rust,ignore'', ''x'', ''```'', ''```rust'', ''y''])
     = [(1, ''ignore'', ''x''), (4, [], ''y'')]
   \<and> after_first_comma ''```rust,ignore'' = ''ignore''
   \<and> after_first_comma ''```rust'' = []"
  using attributes_follow_first_comma
    [of "join_nl [''```rust,ignore'', ''x'', ''```'', ''```rust'', ''y'']"]
  by (simp add: after_first_comma_def extract_rust_blocks_def scan_from_def final_scanner_def init_scanner_def
      step_def match_open_def fence_tag_rest_def at_end_def nl_def yielded_def at_eof_def
      startswith_def attrs_of_def match_attrs_def)

text \<open>
  C6 at the input where the code departs from it: when reading the file raises
  \<^verbatim>\<open>UnicodeDecodeError\<close>, neither \<^verbatim>\<open>except\<close> clause applies, so \<^verbatim>\<open>main\<close> prints no
  diagnostic of its own and does not reach \<^verbatim>\<open>sys.exit(1)\<close>; the exception leaves
  \<^verbatim>\<open>main\<close>. Another read failure takes the one-line path.
\<close>

theorem decode_error_not_handled:
  "main [''extract-rust-blocks.py'', ''doc.md'']
        (\<lambda>p. Inl (UnicodeDecodeError ''invalid start byte''))
     = Uncaught (UnicodeDecodeError ''invalid start byte'')
   \<and> main [''extract-rust-blocks.py'', ''doc.md''] (\<lambda>p. Inl (OSError ''denied''))
     = Exited 1 [] (''Error reading file: denied'' @ [nl])"
  by (simp add: main_def)

text \<open>
  C7. The scan of any document, however malformed, ends with a result: the loop is a
  recursion over the lines of the document, one iteration for each line, no iteration
  has a failing branch (group 1 of the attribute match is read only when there is a
  match), and the scan yields at most as many blocks as the document has lines.
\<close>

theorem scan_total:
  "\<exists>ys s. run 1 (split_nl d) init_scanner = (ys, s)
        \<and> extract_rust_blocks d = ys @ at_eof s
        \<and> length (extract_rust_blocks d) \<le> length (split_nl d)"
proof -
  obtain ys s where r: "run 1 (split_nl d) init_scanner = (ys, s)"
    by (cases "run 1 (split_nl d) init_scanner")
  have "length (extract_rust_blocks d) \<le> length (split_nl d)"
    using scan_from_length [of 1 "split_nl d" init_scanner]
    by (simp add: extract_rust_blocks_def init_scanner_def)
  with r show ?thesis by (simp add: extract_rust_blocks_def scan_from_def)
qed

text \<open>
  C8. Two scans give the same blocks in the same order whenever their documents have the
  same lines, in particular two scans of the same document: every scan starts from the
  same initial variables and reads nothing but the lines.
\<close>

theorem scan_deterministic:
  assumes "first_scan = extract_rust_blocks d" and "second_scan = extract_rust_blocks d'"
    and "split_nl d = split_nl d'"
  shows "first_scan = second_scan"
  using assms by (simp add: extract_rust_blocks_def)

theorem scan_deterministic_witness:
  "[(1, [], ''x'')] = extract_rust_blocks (join_nl [''```rust'', ''x'', ''```''])"
proof -
  have first_scan: "[(1, [], ''x'')] = extract_rust_blocks (join_nl [''```rust'', ''x'', ''```''])"
    by (simp add: extract_rust_blocks_def scan_from_def final_scanner_def init_scanner_def
      step_def match_open_def fence_tag_rest_def at_end_def nl_def yielded_def at_eof_def
      startswith_def attrs_of_def match_attrs_def)
  from scan_deterministic [OF first_scan refl refl] show ?thesis .
qed

text \<open>
  C9. A line matching the Rust opening-fence pattern that arrives while the scanner is
  inside a block yields nothing and replaces the block in progress: the start line is
  the number of that line, the attributes are those of that fence, the content is empty
  again. After body lines that are not fences, a line equal to the closing fence yields
  this new block, and only it.
\<close>

theorem rust_fence_inside_restarts:
  assumes "in_block s" and "match_open l" and "\<forall>x\<in>set body. \<not> startswith x ''```''"
  shows "step i l s = ([], s\<lparr>in_block := True, block_start := i, block_content := [],
                              attributes := attrs_of l\<rparr>)
       \<and> fst (run i (l # body @ [''```'']) s) = [(i, attrs_of l, join_nl body)]
       \<and> \<not> in_block (snd (run i (l # body @ [''```'']) s))"
  using assms by (simp add: step_open run_fenced del: run.simps)

theorem rust_fence_inside_restarts_witness:
  "fst (run 3 [''```rust,ignore'', ''b'', ''```'']
          \<lparr>in_block = True, block_start = 1, block_content = [''a''], attributes = []\<rparr>)
   = [(3, ''ignore'', ''b'')]"
  using rust_fence_inside_restarts
    [of "\<lparr>in_block = True, block_start = 1, block_content = [''a''], attributes = []\<rparr>"
        "''```rust,ignore''" "[''b'']" 3]
  by (simp add: startswith_fence match_open_def fence_tag_rest_def at_end_def
      attrs_of_def match_attrs_def nl_def del: run.simps)

text \<open>
  C10. In any scan the start lines of the yielded blocks are strictly increasing, and
  every yielded block stems from one opening fence only: its start line is the number of
  an opening-fence line, its attributes are those of that line, and its content is the
  join of the lines that follow that line, none of them fence-like, up to a closing
  fence or the end of the document. Nothing of a block that was dropped before can
  occur in it.
\<close>

theorem blocks_increasing_and_from_own_fence:
  "sorted_wrt (<) (map fst (extract_rust_blocks d))
   \<and> (\<forall>b \<in> set (extract_rust_blocks d). block_of_fence (split_nl d) b)"
  by (simp add: extract_sorted extract_blocks_of_fences)

theorem blocks_increasing_and_from_own_fence_witness:
  "extract_rust_blocks
     (join_nl [''```rust,a'', ''x'', ''```python'', ''y'', ''```'', ''```rust,b'', ''z'',
               ''```'', ''```rust'', ''w''])
     = [(6, ''b'', ''z''), (9, [], ''w'')]
   \<and> sorted_wrt (<) (map fst (extract_rust_blocks
     (join_nl [''```rust,a'', ''x'', ''```python'', ''y'', ''```'', ''```rust,b'', ''z'',
               ''```'', ''```rust'', ''w''])))"
  using blocks_increasing_and_from_own_fence
    [of "join_nl [''```rust,a'', ''x'', ''```python'', ''y'', ''```'', ''```rust,b'', ''z'',
               ''```'', ''```rust'', ''w'']"]
  by (simp add: extract_rust_blocks_def scan_from_def final_scanner_def init_scanner_def
      step_def match_open_def fence_tag_rest_def at_end_def nl_def yielded_def at_eof_def
      startswith_def attrs_of_def match_attrs_def)

end
